theory Spec2Isabelle
  imports Complex_Main "HOL-Library.Multiset"
begin

section \<open>Data model\<close>

text \<open>
  The program is one script, \<^verbatim>\<open>src/app.py\<close>: it loads a tab-separated price history
  into a pandas data frame, filters it by calendar date, adds derived columns, reduces
  them to six scalars and draws shaded regime rectangles.

  Conventions of the embedding.
  \<^item> A float64 cell is a \<open>real option\<close>: \<open>None\<close> is the missing value (NaN), \<open>Some x\<close> a
    number. Arithmetic is the arithmetic of the reals; rounding and infinities are not
    modelled. Where float64 division by zero would give a non-finite value the model
    gives \<open>None\<close>.
  \<^item> A parsed date cell is an \<open>int option\<close>: \<open>None\<close> is NaT, \<open>Some t\<close> a timestamp in
    nanoseconds since the epoch (the resolution of pandas' datetime64).
  \<^item> \<^verbatim>\<open>pd.read_csv\<close>, \<^verbatim>\<open>pd.to_datetime(..., errors="coerce")\<close> and
    \<^verbatim>\<open>pd.to_numeric(..., errors="coerce")\<close> are library calls. A file is given by the
    rows they produce: six cells per row, each a value or missing.
\<close>

record raw_row =
  raw_date :: "int option"
  raw_ouv :: "real option"
  raw_haut :: "real option"
  raw_bas :: "real option"
  raw_clot :: "real option"
  raw_vol :: "real option"

text \<open>
  A row that survived \<^verbatim>\<open>dropna(subset=["date","clot"])\<close>: its date and its close are
  present, every other cell may still be missing.
\<close>

record bar =
  date :: int
  ouv :: "real option"
  haut :: "real option"
  bas :: "real option"
  clot :: real
  vol :: "real option"

datatype error =
    FileNotFoundError  \<comment> \<open>line 101: neither candidate file exists\<close>
  | Date_input_error  \<comment> \<open>lines 107-108: \<^verbatim>\<open>st.sidebar.date_input\<close> raises on a NaT default\<close>
  | Pas_assez_de_donnees  \<comment> \<open>lines 114-116: \<^verbatim>\<open>st.error\<close> then \<^verbatim>\<open>st.stop()\<close>\<close>
  | IndexError  \<comment> \<open>\<^verbatim>\<open>.iloc\<close> on an empty frame\<close>

section \<open>Loading (lines 89-101)\<close>

text \<open>The non-missing cells of a column, in order (what \<^verbatim>\<open>skipna=True\<close> keeps).\<close>

fun present :: "'a option list \<Rightarrow> 'a list" where
  "present [] = []"
| "present (None # xs) = present xs"
| "present (Some x # xs) = x # present xs"

text \<open>\<^verbatim>\<open>df.dropna(subset=["date","clot"])\<close>, line 100.\<close>

definition keep_row :: "raw_row \<Rightarrow> bar option" where
  "keep_row r =
     (case raw_date r of
        None \<Rightarrow> None
      | Some d \<Rightarrow>
          (case raw_clot r of
             None \<Rightarrow> None
           | Some c \<Rightarrow>
               Some \<lparr>date = d, ouv = raw_ouv r, haut = raw_haut r, bas = raw_bas r,
                     clot = c, vol = raw_vol r\<rparr>))"

definition dropna :: "raw_row list \<Rightarrow> bar list" where
  "dropna rs = present (map keep_row rs)"

text \<open>
  \<^verbatim>\<open>.sort_values("date")\<close>, line 100. The order pandas gives to rows of equal date is
  not fixed by its default sort; the model keeps their file order.
\<close>

definition sort_values :: "bar list \<Rightarrow> bar list" where
  "sort_values df = sort_key date df"

text \<open>
  The loop of line 92 over the candidate paths: \<open>None\<close> is a path that does not exist,
  \<open>Some rs\<close> a file with the parsed rows \<open>rs\<close>. The first existing file is returned
  cleaned and sorted; when the loop ends, line 101 raises.
\<close>

fun load_from :: "raw_row list option list \<Rightarrow> error + bar list" where
  "load_from [] = Inl FileNotFoundError"
| "load_from (None # ps) = load_from ps"
| "load_from (Some rs # ps) = Inr (sort_values (dropna rs))"

definition load_data :: "raw_row list option \<Rightarrow> raw_row list option \<Rightarrow> error + bar list" where
  "load_data txt noext = load_from [txt, noext]"

section \<open>Filtering (lines 113-116)\<close>

definition ns_per_day :: int where
  "ns_per_day = 86400000000000"

text \<open>\<^verbatim>\<open>.dt.date\<close>: the calendar day of a timestamp, as a day number.\<close>

definition dt_date :: "int \<Rightarrow> int" where
  "dt_date t = t div ns_per_day"

definition date_filter :: "bar list \<Rightarrow> int \<Rightarrow> int \<Rightarrow> bar list" where
  "date_filter df start end = filter (\<lambda>r. start \<le> dt_date (date r) \<and> dt_date (date r) \<le> end) df"

section \<open>Features (lines 119-124 and 167)\<close>

text \<open>
  \<open>c / p - 1\<close>, the form of lines 119, 123 and 127; a zero divisor leaves the cell
  without a finite value.
\<close>

definition rel_change :: "real \<Rightarrow> real \<Rightarrow> real option" where
  "rel_change c p = (if p = 0 then None else Some (c / p - 1))"

text \<open>
  \<^verbatim>\<open>Series.pct_change()\<close>: the first row has no return; row \<open>i\<close> has
  \<open>clot[i] / clot[i-1] - 1\<close>. The first argument of \<open>pct_change_from\<close> is the previous
  close.
\<close>

fun pct_change_from :: "real \<Rightarrow> real list \<Rightarrow> real option list" where
  "pct_change_from p [] = []"
| "pct_change_from p (c # cs) = rel_change c p # pct_change_from c cs"

fun pct_change :: "real list \<Rightarrow> real option list" where
  "pct_change [] = []"
| "pct_change (c # cs) = None # pct_change_from c cs"

text \<open>
  \<^verbatim>\<open>Series.rolling(w)\<close>: the window of row \<open>i\<close> is the rows \<open>i-w+1 .. i\<close>, cut at the
  start of the series. With pandas' default \<^verbatim>\<open>min_periods = w\<close> the aggregate is missing
  unless the window holds \<open>w\<close> non-missing cells.
\<close>

definition window :: "nat \<Rightarrow> nat \<Rightarrow> 'a list \<Rightarrow> 'a list" where
  "window w i xs = drop (Suc i - w) (take (Suc i) xs)"

definition rolling :: "nat \<Rightarrow> (real list \<Rightarrow> real option) \<Rightarrow> real option list \<Rightarrow> real option list" where
  "rolling w agg xs =
     map (\<lambda>i. let obs = present (window w i xs)
               in if length obs < w then None else agg obs)
         [0..<length xs]"

text \<open>\<^verbatim>\<open>.mean()\<close> of the non-missing cells; missing when there is none.\<close>

definition mean :: "real list \<Rightarrow> real option" where
  "mean obs = (if obs = [] then None else Some (sum_list obs / real (length obs)))"

text \<open>
  \<^verbatim>\<open>.std()\<close>: the sample standard deviation (\<^verbatim>\<open>ddof=1\<close>) of the non-missing cells;
  missing when there are fewer than two.
\<close>

definition std :: "real list \<Rightarrow> real option" where
  "std obs =
     (if length obs \<le> 1 then None
      else let m = sum_list obs / real (length obs)
           in Some (sqrt (sum_list (map (\<lambda>x. (x - m)\<^sup>2) obs) / real (length obs - 1))))"

text \<open>\<^verbatim>\<open>Series.cummax()\<close>: the running maximum. The first argument of \<open>cummax_from\<close> is the
  maximum so far.\<close>

fun cummax_from :: "real \<Rightarrow> real list \<Rightarrow> real list" where
  "cummax_from m [] = []"
| "cummax_from m (c # cs) = max m c # cummax_from (max m c) cs"

fun cummax :: "real list \<Rightarrow> real list" where
  "cummax [] = []"
| "cummax (c # cs) = c # cummax_from c cs"

text \<open>The derived columns, each as the script assigns it.\<close>

definition ret_col :: "bar list \<Rightarrow> real option list" where
  "ret_col data = pct_change (map clot data)"  \<comment> \<open>line 119\<close>

definition maF_col :: "nat \<Rightarrow> bar list \<Rightarrow> real option list" where
  "maF_col maF data = rolling maF mean (map (\<lambda>r. Some (clot r)) data)"  \<comment> \<open>line 120\<close>

definition maS_col :: "nat \<Rightarrow> bar list \<Rightarrow> real option list" where
  "maS_col maS data = rolling maS mean (map (\<lambda>r. Some (clot r)) data)"  \<comment> \<open>line 121\<close>

definition peak_col :: "bar list \<Rightarrow> real list" where
  "peak_col data = cummax (map clot data)"  \<comment> \<open>line 122\<close>

definition dd_col :: "bar list \<Rightarrow> real option list" where
  "dd_col data = map2 rel_change (map clot data) (peak_col data)"  \<comment> \<open>line 123\<close>

definition volR_col :: "nat \<Rightarrow> bar list \<Rightarrow> real option list" where
  "volR_col vol_w data =
     map (map_option (\<lambda>s. s * sqrt 252)) (rolling vol_w std (ret_col data))"  \<comment> \<open>line 124\<close>

text \<open>
  Line 167: \<^verbatim>\<open>(data["maF"] > data["maS"]).astype(int)\<close>. A comparison with a missing
  operand is false.
\<close>

fun gt_cell :: "real option \<Rightarrow> real option \<Rightarrow> bool" where
  "gt_cell (Some a) (Some b) = (a > b)"
| "gt_cell _ _ = False"

definition reg_col :: "nat \<Rightarrow> nat \<Rightarrow> bar list \<Rightarrow> int list" where
  "reg_col maF maS data =
     map2 (\<lambda>a b. if gt_cell a b then 1 else 0) (maF_col maF data) (maS_col maS data)"

section \<open>Summary scalars (lines 126-131)\<close>

text \<open>\<^verbatim>\<open>Series.max()\<close>, \<^verbatim>\<open>.min()\<close>, \<^verbatim>\<open>.mean()\<close>, \<^verbatim>\<open>.std()\<close> skip missing cells
  (\<^verbatim>\<open>skipna=True\<close>) and are missing when nothing is left.\<close>

definition series_max :: "real option list \<Rightarrow> real option" where
  "series_max xs = (case present xs of [] \<Rightarrow> None | v # vs \<Rightarrow> Some (fold max vs v))"

definition series_min :: "real option list \<Rightarrow> real option" where
  "series_min xs = (case present xs of [] \<Rightarrow> None | v # vs \<Rightarrow> Some (fold min vs v))"

definition series_mean :: "real option list \<Rightarrow> real option" where
  "series_mean xs = mean (present xs)"

definition series_std :: "real option list \<Rightarrow> real option" where
  "series_std xs = std (present xs)"

record kpis =
  last_close :: real
  perf :: "real option"
  max_high :: "real option"
  avg_vol :: "real option"
  vol_ann :: "real option"
  max_dd :: "real option"

text \<open>\<^verbatim>\<open>.iloc[-1]\<close> and \<^verbatim>\<open>.iloc[0]\<close> raise on an empty frame.\<close>

definition summary :: "bar list \<Rightarrow> error + kpis" where
  "summary data =
     (if data = [] then Inl IndexError
      else Inr \<lparr>last_close = clot (last data),
                perf = rel_change (clot (last data)) (clot (hd data)),
                max_high = series_max (map haut data),
                avg_vol = series_mean (map vol data),
                vol_ann = map_option (\<lambda>s. s * sqrt 252) (series_std (ret_col data)),
                max_dd = series_min (dd_col data)\<rparr>)"

section \<open>Regime rectangles (lines 176-187)\<close>

text \<open>
  The loop keeps the start \<open>s\<close> of the current run and, at every row \<open>i\<close> whose regime
  differs from the one before, emits the rectangle of the rows \<open>s .. i-1\<close> and restarts
  at \<open>i\<close>. The state is \<open>s\<close> and the rectangles emitted so far, as pairs of row
  positions.
\<close>

definition seg_step :: "int list \<Rightarrow> nat \<Rightarrow> nat \<times> (nat \<times> nat) list \<Rightarrow> nat \<times> (nat \<times> nat) list" where
  "seg_step reg i st =
     (case st of (s, out) \<Rightarrow>
        if reg ! i \<noteq> reg ! (i - 1) then (i, out @ [(s, i - 1)]) else (s, out))"

text \<open>After the loop, lines 185-187 emit the last run; \<^verbatim>\<open>.iloc[s]\<close> raises on an empty
  frame.\<close>

definition segments :: "int list \<Rightarrow> error + (nat \<times> nat) list" where
  "segments reg =
     (case fold (seg_step reg) [1..<length reg] (0, []) of (s, out) \<Rightarrow>
        if reg = [] then Inl IndexError else Inr (out @ [(s, length reg - 1)]))"

record vrect =
  x0 :: int
  x1 :: int
  fillcolor :: string

text \<open>The rectangle of the rows \<open>s .. e\<close>: its dates are those of the two rows, its colour
  depends on the regime of row \<open>e\<close>.\<close>

definition vrect_of :: "bar list \<Rightarrow> int list \<Rightarrow> nat \<times> nat \<Rightarrow> vrect" where
  "vrect_of data reg se =
     \<lparr>x0 = date (data ! fst se), x1 = date (data ! snd se),
      fillcolor = (if reg ! snd se = 1 then ''rgba(34,197,94,.10)'' else ''rgba(239,68,68,.10)'')\<rparr>"

definition add_vrects :: "bar list \<Rightarrow> int list \<Rightarrow> error + vrect list" where
  "add_vrects data reg =
     (case segments reg of Inl e \<Rightarrow> Inl e | Inr segs \<Rightarrow> Inr (map (vrect_of data reg) segs))"

section \<open>The script after loading (lines 103-187)\<close>

record page =
  p_data :: "bar list"
  p_ret :: "real option list"
  p_maF :: "real option list"
  p_maS :: "real option list"
  p_peak :: "real list"
  p_dd :: "real option list"
  p_volR :: "real option list"
  p_reg :: "int list"
  p_kpis :: kpis
  p_vrects :: "vrect list"

text \<open>
  Lines 107-108: the defaults of the two date widgets are the calendar days of the
  earliest and of the latest row of the loaded table. An empty table has neither:
  \<^verbatim>\<open>df["date"].min()\<close> and \<^verbatim>\<open>.max()\<close> are NaT there, and \<^verbatim>\<open>date_input\<close> raises on that
  default, so the run ends at line 107.
\<close>

definition date_input_defaults :: "bar list \<Rightarrow> error + int \<times> int" where
  "date_input_defaults df =
     (case map date df of
        [] \<Rightarrow> Inl Date_input_error
      | t # ts \<Rightarrow> Inr (dt_date (fold min ts t), dt_date (fold max ts t)))"

text \<open>
  \<open>start\<close>, \<open>end\<close>, \<open>maF\<close>, \<open>maS\<close> and \<open>vol_w\<close> are the values the sidebar widgets
  return (the user's choice, or the defaults). \<^verbatim>\<open>st.stop()\<close> ends the run: nothing after
  line 116 is computed.
\<close>

definition dashboard :: "bar list \<Rightarrow> int \<Rightarrow> int \<Rightarrow> nat \<Rightarrow> nat \<Rightarrow> nat \<Rightarrow> error + page" where
  "dashboard df start end maF maS vol_w =
     (case date_input_defaults df of
        Inl e \<Rightarrow> Inl e
      | Inr defaults \<Rightarrow>
          (let data = date_filter df start end in
           if length data < 15 then Inl Pas_assez_de_donnees
           else
             (case summary data of
                Inl e \<Rightarrow> Inl e
              | Inr k \<Rightarrow>
                  (case add_vrects data (reg_col maF maS data) of
                     Inl e \<Rightarrow> Inl e
                   | Inr vs \<Rightarrow>
                       Inr \<lparr>p_data = data, p_ret = ret_col data, p_maF = maF_col maF data,
                            p_maS = maS_col maS data, p_peak = peak_col data,
                            p_dd = dd_col data, p_volR = volR_col vol_w data,
                            p_reg = reg_col maF maS data, p_kpis = k, p_vrects = vs\<rparr>))))"

section \<open>Notions used in the statements and proofs\<close>

text \<open>The return of row \<open>j\<close> (for \<open>j > 0\<close>), as line 119 computes it from two closes.\<close>

definition ret_at :: "bar list \<Rightarrow> nat \<Rightarrow> real" where
  "ret_at data j = clot (data ! j) / clot (data ! (j - 1)) - 1"

text \<open>The row positions that a rectangle from row \<open>s\<close> to row \<open>e\<close> spans, both ends
  included.\<close>

definition rows_of :: "nat \<times> nat \<Rightarrow> nat list" where
  "rows_of se = [fst se..<Suc (snd se)]"

text \<open>
  The state of the loop of lines 176-184 after row \<open>k\<close>: the rectangles emitted so far
  tile the rows before \<open>s\<close> in order, each is a run of one regime that ends before the
  next begins, the rows \<open>s .. k\<close> share the regime of row \<open>k\<close>, and the regimes of
  consecutive rectangles, followed by that of the current run, alternate.
\<close>

definition seg_inv :: "int list \<Rightarrow> nat \<Rightarrow> nat \<times> (nat \<times> nat) list \<Rightarrow> bool" where
  "seg_inv reg k st =
     (case st of (s, out) \<Rightarrow>
        s \<le> k \<and>
        concat (map rows_of out) = [0..<s] \<and>
        (\<forall>j. s \<le> j \<and> j \<le> k \<longrightarrow> reg ! j = reg ! k) \<and>
        (\<forall>se \<in> set out. fst se \<le> snd se \<and> snd se < s \<and>
             (\<forall>j. fst se \<le> j \<and> j \<le> snd se \<longrightarrow> reg ! j = reg ! snd se)) \<and>
        sorted_wrt (\<lambda>se se'. snd se < fst se') out \<and>
        distinct_adj (map (\<lambda>se. reg ! snd se) out @ [reg ! k]))"

section \<open>Example rows\<close>

text \<open>Rows with only a date and a close, for the concrete instances below.\<close>

definition raw_at :: "int option \<Rightarrow> real option \<Rightarrow> raw_row" where
  "raw_at d c =
     \<lparr>raw_date = d, raw_ouv = None, raw_haut = None, raw_bas = None, raw_clot = c,
      raw_vol = None\<rparr>"

definition bar_at :: "int \<Rightarrow> real \<Rightarrow> bar" where
  "bar_at d c = \<lparr>date = d, ouv = None, haut = None, bas = None, clot = c, vol = None\<rparr>"

section \<open>Loading: what the loader returns\<close>

lemma keep_row_raw_at [simp]:
  "keep_row (raw_at None c) = None"
  "keep_row (raw_at d None) = None"
  "keep_row (raw_at (Some t) (Some x)) = Some (bar_at t x)"
  by (simp_all add: keep_row_def raw_at_def bar_at_def split: option.splits)

lemma date_bar_at [simp]: "date (bar_at d c) = d" and clot_bar_at [simp]: "clot (bar_at d c) = c"
  by (simp_all add: bar_at_def)

lemma load_data_cases:
  "load_data txt noext =
     (case txt of Some rs \<Rightarrow> Inr (sort_values (dropna rs))
      | None \<Rightarrow> (case noext of Some rs \<Rightarrow> Inr (sort_values (dropna rs))
                 | None \<Rightarrow> Inl FileNotFoundError))"
  by (simp add: load_data_def split: option.splits)

lemma load_data_error:
  "load_data txt noext = Inl e \<longleftrightarrow> txt = None \<and> noext = None \<and> e = FileNotFoundError"
  by (auto simp: load_data_cases split: option.splits)

lemma sort_values_sorted: "sorted (map date (sort_values df))"
  by (simp add: sort_values_def)

lemma sort_values_mset: "mset (sort_values df) = mset df"
  by (simp add: sort_values_def)

lemma load_data_mset:
  "load_data txt noext = Inr df \<Longrightarrow>
     \<exists>rs. (txt = Some rs \<or> txt = None \<and> noext = Some rs) \<and> mset df = mset (dropna rs)"
  by (auto simp: load_data_cases sort_values_mset split: option.splits)

text \<open>
  A file whose rows all lack a date or a close: the loader returns the empty table. The
  only error of \<open>load_data\<close> is \<open>FileNotFoundError\<close> (\<open>load_data_error\<close>).
\<close>

theorem load_data_empty_counterexample:
  "dropna [raw_at None (Some 1), raw_at (Some 0) None] = [] \<and>
   load_data (Some [raw_at None (Some 1), raw_at (Some 0) None]) None = Inr []"
  by (simp add: load_data_cases dropna_def sort_values_def)

text \<open>
  Claim C1, as the code has it: when the file that is read (the first candidate that
  exists) has no row with both a date and a close, \<open>load_data\<close> returns the empty table;
  it does not fail.
\<close>

theorem load_data_no_valid_rows:
  assumes "txt = Some rs \<or> txt = None \<and> noext = Some rs" and "dropna rs = []"
  shows "load_data txt noext = Inr []"
  using assms by (auto simp: load_data_cases sort_values_def)

theorem load_data_no_valid_rows_witness:
  "dropna [raw_at None (Some 1)] = [] \<and> load_data None (Some [raw_at None (Some 1)]) = Inr []"
proof -
  have d: "dropna [raw_at None (Some 1)] = []" by (simp add: dropna_def)
  show ?thesis
    using d load_data_no_valid_rows [of None "[raw_at None (Some 1)]" "Some [raw_at None (Some 1)]"]
    by simp
qed

text \<open>
  Two rows of the same date both survive loading: the loader sorts, it does not remove
  duplicates (\<open>load_data_mset\<close>).
\<close>

theorem load_data_equal_dates_counterexample:
  "load_data (Some [raw_at (Some 0) (Some 2), raw_at (Some 0) (Some 1)]) None =
     Inr [bar_at 0 2, bar_at 0 1] \<and>
   \<not> date ([bar_at 0 2, bar_at 0 1] ! 0) < date ([bar_at 0 2, bar_at 0 1] ! 1)"
  by (simp add: load_data_cases dropna_def sort_values_def)

text \<open>
  Claim C2, as the code has it: in the table returned by \<open>load_data\<close> the dates of
  consecutive rows never decrease, and they increase strictly when the dates of the
  table are pairwise distinct.
\<close>

theorem load_data_dates_ascending:
  assumes "load_data txt noext = Inr df" and "Suc i < length df"
  shows "date (df ! i) \<le> date (df ! Suc i) \<and>
         (distinct (map date df) \<longrightarrow> date (df ! i) < date (df ! Suc i))"
proof -
  from assms(1) obtain rs where "df = sort_values (dropna rs)"
    by (auto simp: load_data_cases split: option.splits)
  then have s: "sorted (map date df)" by (simp add: sort_values_sorted)
  have le: "map date df ! i \<le> map date df ! Suc i"
    using s assms(2) by (intro sorted_nth_mono) auto
  have "distinct (map date df) \<Longrightarrow> map date df ! i \<noteq> map date df ! Suc i"
    using assms(2) by (simp add: nth_eq_iff_index_eq del: nth_map)
  with le show ?thesis using assms(2) by auto
qed

theorem load_data_dates_ascending_witness:
  "load_data (Some [raw_at (Some 5) (Some 2), raw_at (Some 3) (Some 1)]) None
     = Inr [bar_at 3 1, bar_at 5 2] \<and>
   Suc 0 < length [bar_at 3 1, bar_at 5 2] \<and>
   distinct (map date [bar_at 3 1, bar_at 5 2]) \<and>
   date ([bar_at 3 1, bar_at 5 2] ! 0) < date ([bar_at 3 1, bar_at 5 2] ! Suc 0)"
proof -
  have l: "load_data (Some [raw_at (Some 5) (Some 2), raw_at (Some 3) (Some 1)]) None
     = Inr [bar_at 3 1, bar_at 5 2]"
    by (simp add: load_data_cases dropna_def sort_values_def)
  show ?thesis
    using l load_data_dates_ascending [OF l, of 0] by simp
qed

section \<open>The date widgets and the 15-row gate\<close>

lemma summary_nonempty: "data \<noteq> [] \<Longrightarrow> \<exists>k. summary data = Inr k"
  by (simp add: summary_def)

lemma length_rolling [simp]: "length (rolling w agg xs) = length xs"
  by (simp add: rolling_def)

lemma length_reg_col [simp]: "length (reg_col maF maS data) = length data"
  by (simp add: reg_col_def maF_col_def maS_col_def)

lemma segments_nonempty: "reg \<noteq> [] \<Longrightarrow> \<exists>segs. segments reg = Inr segs"
  by (simp add: segments_def split: prod.splits)

lemma date_input_defaults_empty: "date_input_defaults [] = Inl Date_input_error"
  by (simp add: date_input_defaults_def)

lemma date_input_defaults_nonempty: "df \<noteq> [] \<Longrightarrow> \<exists>d. date_input_defaults df = Inr d"
  by (cases df) (simp_all add: date_input_defaults_def)

lemma dashboard_empty_table: "dashboard [] start end maF maS vol_w = Inl Date_input_error"
  by (simp add: dashboard_def date_input_defaults_empty)

lemma dashboard_renders:
  assumes "15 \<le> length (date_filter df start end)"
  shows "\<exists>p. dashboard df start end maF maS vol_w = Inr p \<and> p_data p = date_filter df start end"
proof -
  let ?data = "date_filter df start end"
  have ne: "?data \<noteq> []" using assms by auto
  then have "df \<noteq> []" by (auto simp: date_filter_def)
  then obtain d where d: "date_input_defaults df = Inr d"
    using date_input_defaults_nonempty by blast
  from ne obtain k where k: "summary ?data = Inr k" using summary_nonempty by blast
  have "reg_col maF maS ?data \<noteq> []" using ne by (metis length_reg_col length_0_conv)
  then obtain segs where "segments (reg_col maF maS ?data) = Inr segs"
    using segments_nonempty by blast
  then show ?thesis using assms k d by (simp add: dashboard_def add_vrects_def Let_def)
qed

text \<open>
  On the empty table, which the loader returns for a file without a valid row, the
  filter leaves no row, yet the run does not reach the message of line 115: it ends at
  line 107.
\<close>

theorem dashboard_empty_table_counterexample:
  "length (date_filter [] 0 0) < 15 \<and>
   dashboard [] 0 0 20 50 20 \<noteq> Inl Pas_assez_de_donnees"
  by (simp add: dashboard_empty_table date_filter_def)

text \<open>
  Claim C3, as the code has it: for a loaded table that is not empty, when the date
  filter leaves fewer than 15 rows the run ends with the message of line 115 and returns
  no page: no derived column, no scalar and no rectangle. With 15 rows or more it
  returns a page (\<open>dashboard_renders\<close>).
\<close>

theorem dashboard_stops_below_15:
  assumes "df \<noteq> []" and "length (date_filter df start end) < 15"
  shows "dashboard df start end maF maS vol_w = Inl Pas_assez_de_donnees"
proof -
  from assms(1) obtain d where "date_input_defaults df = Inr d"
    using date_input_defaults_nonempty by blast
  with assms(2) show ?thesis by (simp add: dashboard_def Let_def)
qed

theorem dashboard_stops_below_15_witness:
  "[bar_at 0 1, bar_at ns_per_day 2] \<noteq> [] \<and>
   length (date_filter [bar_at 0 1, bar_at ns_per_day 2] 1 1) = 1 \<and>
   dashboard [bar_at 0 1, bar_at ns_per_day 2] 1 1 20 50 20 = Inl Pas_assez_de_donnees"
proof -
  have l: "length (date_filter [bar_at 0 1, bar_at ns_per_day 2] 1 1) = 1"
    by (simp add: date_filter_def dt_date_def ns_per_day_def)
  show ?thesis
    using l dashboard_stops_below_15 [of "[bar_at 0 1, bar_at ns_per_day 2]" 1 1 20 50 20]
    by simp
qed

section \<open>Running maximum and drawdown\<close>

lemma length_cummax_from [simp]: "length (cummax_from m cs) = length cs"
  by (induction cs arbitrary: m) auto

lemma length_cummax [simp]: "length (cummax cs) = length cs"
  by (cases cs) auto

lemma cummax_from_nth:
  "i < length cs \<Longrightarrow> cummax_from m cs ! i = Max (insert m (set (take (Suc i) cs)))"
proof (induction cs arbitrary: m i)
  case Nil
  then show ?case by simp
next
  case (Cons c cs)
  show ?case
  proof (cases i)
    case 0
    then show ?thesis by (simp add: max.commute)
  next
    case (Suc j)
    with Cons.prems have j: "j < length cs" by simp
    let ?S = "set (take (Suc j) cs)"
    have ne: "?S \<noteq> {}" using j by auto
    have "cummax_from m (c # cs) ! i = Max (insert (max m c) ?S)"
      using Suc Cons.IH [OF j] by simp
    also have "\<dots> = max (max m c) (Max ?S)"
      using ne by simp
    also have "\<dots> = Max (insert m (insert c ?S))"
      using ne by (simp add: max.assoc)
    finally show ?thesis using Suc by simp
  qed
qed

lemma cummax_nth:
  "i < length cs \<Longrightarrow> cummax cs ! i = Max (set (take (Suc i) cs))"
proof (cases cs)
  case Nil
  assume "i < length cs"
  with Nil show ?thesis by simp
next
  case (Cons c cs')
  assume i: "i < length cs"
  show ?thesis
  proof (cases i)
    case 0
    with Cons show ?thesis by simp
  next
    case (Suc j)
    with i Cons have "j < length cs'" by simp
    then show ?thesis using Cons Suc by (simp add: cummax_from_nth)
  qed
qed

lemma cummax_ge: "i < length cs \<Longrightarrow> cs ! i \<le> cummax cs ! i"
proof -
  assume i: "i < length cs"
  have "cs ! i \<in> set (take (Suc i) cs)"
    using i by (metis in_set_conv_nth length_take lessI min_less_iff_conj nth_take)
  then show ?thesis using i by (simp add: cummax_nth)
qed

lemma cummax_mono: "Suc i < length cs \<Longrightarrow> cummax cs ! i \<le> cummax cs ! Suc i"
proof -
  assume i: "Suc i < length cs"
  have "set (take (Suc i) cs) \<subseteq> set (take (Suc (Suc i)) cs)"
    by (rule set_take_subset_set_take) simp
  moreover have "set (take (Suc i) cs) \<noteq> {}" using i by auto
  ultimately have "Max (set (take (Suc i) cs)) \<le> Max (set (take (Suc (Suc i)) cs))"
    by (intro Max_mono) auto
  then show ?thesis using i by (simp add: cummax_nth)
qed

lemma cummax_mem: "i < length cs \<Longrightarrow> cummax cs ! i \<in> set cs"
proof -
  assume i: "i < length cs"
  then have "set (take (Suc i) cs) \<noteq> {}" by auto
  then have "Max (set (take (Suc i) cs)) \<in> set (take (Suc i) cs)"
    by (intro Max_in) auto
  then show ?thesis using i by (auto simp: cummax_nth dest: in_set_takeD)
qed

text \<open>
  Claim C7: the running maximum of the close never decreases from one row to the next.
  Row \<open>i\<close> of it is the maximum of the closes of rows \<open>0 .. i\<close> (\<open>cummax_nth\<close>).
\<close>

theorem peak_nondecreasing:
  "Suc i < length data \<Longrightarrow> peak_col data ! i \<le> peak_col data ! Suc i"
  unfolding peak_col_def by (rule cummax_mono) simp

text \<open>
  Claim C6: with positive closes, every row has a drawdown, it is at most 0, and it is 0
  exactly at the rows whose close equals the running maximum.
\<close>

theorem drawdown_nonpositive:
  assumes pos: "\<forall>r \<in> set data. 0 < clot r" and i: "i < length data"
  shows "\<exists>v. dd_col data ! i = Some v \<and> v \<le> 0 \<and> (v = 0 \<longleftrightarrow> clot (data ! i) = peak_col data ! i)"
proof -
  let ?c = "clot (data ! i)" and ?p = "peak_col data ! i"
  have i': "i < length (map clot data)" using i by simp
  have "?p \<in> set (map clot data)"
    unfolding peak_col_def using cummax_mem [OF i'] .
  then have p: "0 < ?p" using pos by auto
  have le: "?c \<le> ?p"
    unfolding peak_col_def using cummax_ge [OF i'] i by simp
  have dd: "dd_col data ! i = Some (?c / ?p - 1)"
    using i p by (simp add: dd_col_def peak_col_def rel_change_def)
  have "?c / ?p \<le> 1" using le p by simp
  moreover have "?c / ?p = 1 \<longleftrightarrow> ?c = ?p" using p by auto
  ultimately show ?thesis using dd by auto
qed

theorem peak_nondecreasing_witness:
  "Suc 0 < length [bar_at 0 3, bar_at 1 2] \<and>
   peak_col [bar_at 0 3, bar_at 1 2] ! 0 \<le> peak_col [bar_at 0 3, bar_at 1 2] ! Suc 0"
  using peak_nondecreasing [of 0 "[bar_at 0 3, bar_at 1 2]"] by simp

theorem drawdown_nonpositive_witness:
  "dd_col [bar_at 0 4, bar_at 1 2] ! 1 = Some (- (1 / 2)) \<and>
   (\<exists>v. dd_col [bar_at 0 4, bar_at 1 2] ! 1 = Some v \<and> v \<le> 0 \<and>
        (v = 0 \<longleftrightarrow> clot ([bar_at 0 4, bar_at 1 2] ! 1) = peak_col [bar_at 0 4, bar_at 1 2] ! 1))"
proof -
  have "\<forall>r \<in> set [bar_at 0 4, bar_at 1 2]. 0 < clot r" by simp
  moreover have "dd_col [bar_at 0 4, bar_at 1 2] ! 1 = Some (- (1 / 2))"
    by (simp add: dd_col_def peak_col_def rel_change_def)
  ultimately show ?thesis
    using drawdown_nonpositive [of "[bar_at 0 4, bar_at 1 2]" 1] by simp
qed

section \<open>Moving averages, regime and rolling volatility\<close>

lemma present_map_Some: "present (map (\<lambda>x. Some (f x)) xs) = map f xs"
  by (induction xs) auto

lemma length_present_le: "length (present xs) \<le> length xs"
  by (induction xs rule: present.induct) auto

lemma set_present: "set (present xs) = {x. Some x \<in> set xs}"
  by (induction xs rule: present.induct) auto

lemma present_Nil_iff: "present xs = [] \<longleftrightarrow> (\<forall>x \<in> set xs. x = None)"
  by (induction xs rule: present.induct) auto

lemma window_map: "window w i (map f xs) = map f (window w i xs)"
  by (simp add: window_def take_map drop_map)

lemma window_upt: "i < n \<Longrightarrow> window w i [0..<n] = [Suc i - w..<Suc i]"
  by (simp add: window_def take_upt)

lemma length_window: "i < length xs \<Longrightarrow> length (window w i xs) = Suc i - (Suc i - w)"
  by (simp add: window_def)

lemma rolling_nth:
  "i < length xs \<Longrightarrow>
     rolling w agg xs ! i =
       (if length (present (window w i xs)) < w then None else agg (present (window w i xs)))"
  by (simp add: rolling_def Let_def)

lemma rolling_mean_nth:
  assumes "0 < w" and "i < length cs"
  shows "rolling w mean (map (\<lambda>r. Some (f r)) cs) ! i =
           (if Suc i < w then None
            else Some (sum_list (map f (window w i cs)) / real w))"
proof -
  have p: "present (window w i (map (\<lambda>r. Some (f r)) cs)) = map f (window w i cs)"
    by (simp add: window_map present_map_Some)
  have l: "length (window w i cs) = Suc i - (Suc i - w)"
    using assms(2) by (rule length_window)
  show ?thesis
  proof (cases "Suc i < w")
    case True
    then show ?thesis using assms l by (simp add: rolling_nth p)
  next
    case False
    then have "length (window w i cs) = w" using l by simp
    then show ?thesis using assms False by (auto simp: rolling_nth p mean_def)
  qed
qed

lemma gt_cell_iff: "gt_cell x y \<longleftrightarrow> (\<exists>a b. x = Some a \<and> y = Some b \<and> a > b)"
  by (cases x; cases y) auto

text \<open>
  Claim C4: for positive windows, the regime of row \<open>i\<close> is 1 exactly when both moving
  averages are present there and the short one is greater than the long one, and it is 0
  otherwise. A moving average over \<open>w\<close> rows is missing exactly at the rows with fewer
  than \<open>w\<close> rows of history (\<open>Suc i < w\<close>), so the regime is 0 at every such row.
\<close>

theorem regime_iff_short_above_long:
  assumes "0 < maF" and "0 < maS" and "i < length data"
  shows "(reg_col maF maS data ! i = 1 \<longleftrightarrow>
            (\<exists>a b. maF_col maF data ! i = Some a \<and> maS_col maS data ! i = Some b \<and> a > b)) \<and>
         (reg_col maF maS data ! i \<noteq> 1 \<longleftrightarrow> reg_col maF maS data ! i = 0) \<and>
         (maF_col maF data ! i = None \<longleftrightarrow> Suc i < maF) \<and>
         (maS_col maS data ! i = None \<longleftrightarrow> Suc i < maS) \<and>
         (Suc i < maF \<or> Suc i < maS \<longrightarrow> reg_col maF maS data ! i = 0)"
proof -
  have lF: "length (maF_col maF data) = length data" and lS: "length (maS_col maS data) = length data"
    by (simp_all add: maF_col_def maS_col_def rolling_def)
  have r: "reg_col maF maS data ! i =
             (if gt_cell (maF_col maF data ! i) (maS_col maS data ! i) then 1 else 0)"
    using assms(3) lF lS by (simp add: reg_col_def)
  have F: "maF_col maF data ! i = None \<longleftrightarrow> Suc i < maF"
    unfolding maF_col_def using rolling_mean_nth [OF assms(1) assms(3), of clot] by simp
  have S: "maS_col maS data ! i = None \<longleftrightarrow> Suc i < maS"
    unfolding maS_col_def using rolling_mean_nth [OF assms(2) assms(3), of clot] by simp
  have 1: "reg_col maF maS data ! i = 1 \<longleftrightarrow>
            (\<exists>a b. maF_col maF data ! i = Some a \<and> maS_col maS data ! i = Some b \<and> a > b)"
    using r by (simp add: gt_cell_iff)
  have 2: "reg_col maF maS data ! i \<noteq> 1 \<longleftrightarrow> reg_col maF maS data ! i = 0"
    using r by simp
  have 3: "Suc i < maF \<or> Suc i < maS \<longrightarrow> reg_col maF maS data ! i = 0"
    using r F S by (auto simp: gt_cell_iff)
  from 1 2 F S 3 show ?thesis by blast
qed

lemma length_pct_change_from [simp]: "length (pct_change_from p cs) = length cs"
  by (induction cs arbitrary: p) auto

lemma length_pct_change [simp]: "length (pct_change cs) = length cs"
  by (cases cs) auto

lemma pct_change_from_nth:
  "i < length cs \<Longrightarrow> pct_change_from p cs ! i = rel_change (cs ! i) ((p # cs) ! i)"
proof (induction cs arbitrary: p i)
  case Nil
  then show ?case by simp
next
  case (Cons c cs)
  then show ?case by (cases i) auto
qed

lemma pct_change_nth:
  "i < length cs \<Longrightarrow>
     pct_change cs ! i = (if i = 0 then None else rel_change (cs ! i) (cs ! (i - 1)))"
proof (cases cs)
  case Nil
  assume "i < length cs"
  with Nil show ?thesis by simp
next
  case (Cons c cs')
  assume "i < length cs"
  with Cons show ?thesis by (cases i) (auto simp: pct_change_from_nth)
qed

lemma ret_col_nth:
  assumes "\<forall>r \<in> set data. clot r \<noteq> 0" and "i < length data"
  shows "ret_col data ! i = (if i = 0 then None else Some (ret_at data i))"
proof -
  have "i \<noteq> 0 \<Longrightarrow> clot (data ! (i - 1)) \<noteq> 0"
    using assms by (metis less_imp_diff_less nth_mem)
  then show ?thesis
    using assms(2) by (auto simp: ret_col_def pct_change_nth rel_change_def ret_at_def)
qed

lemma ret_col_upt:
  assumes "\<forall>r \<in> set data. clot r \<noteq> 0"
  shows "ret_col data = map (\<lambda>j. if j = 0 then None else Some (ret_at data j)) [0..<length data]"
  by (rule nth_equalityI) (simp_all add: ret_col_def ret_col_nth [OF assms, unfolded ret_col_def])

lemma present_ret_from:
  "0 < k \<Longrightarrow> present (map (\<lambda>j. if j = 0 then None else Some (g j)) [k..<n]) = map g [k..<n]"
proof -
  assume k: "0 < k"
  have eq: "map (\<lambda>j. if j = 0 then None else Some (g j)) [k..<n] = map (\<lambda>j. Some (g j)) [k..<n]"
    using k by (intro map_cong) auto
  show ?thesis by (simp only: eq present_map_Some)
qed

lemma present_ret_zero:
  "length (present (map (\<lambda>j. if j = 0 then None else Some (g j)) [0..<Suc i])) \<le> i"
proof -
  have u: "[0..<Suc i] = 0 # [Suc 0..<Suc i]" by (rule upt_conv_Cons) simp
  have "present (map (\<lambda>j. if j = 0 then None else Some (g j)) [0..<Suc i]) =
        present (map (\<lambda>j. if j = 0 then None else Some (g j)) [Suc 0..<Suc i])"
    unfolding u by (simp del: upt_Suc)
  moreover have "length (present (map (\<lambda>j. if j = 0 then None else Some (g j)) [Suc 0..<Suc i]))
      \<le> length (map (\<lambda>j. if j = 0 then None else Some (g j)) [Suc 0..<Suc i])"
    by (rule length_present_le)
  ultimately show ?thesis by (simp del: upt_Suc)
qed

lemma rolling_std_ret_nth:
  assumes nz: "\<forall>r \<in> set data. clot r \<noteq> 0" and i: "i < length data"
  shows "rolling w std (ret_col data) ! i =
           (if i < w then None else std (map (ret_at data) [Suc i - w..<Suc i]))"
proof -
  let ?f = "\<lambda>j. if j = 0 then None else Some (ret_at data j)"
  have win: "window w i (ret_col data) = map ?f [Suc i - w..<Suc i]"
    using i by (simp add: ret_col_upt [OF nz] window_map window_upt del: upt_Suc)
  have len: "length (ret_col data) = length data" by (simp add: ret_col_def)
  show ?thesis
  proof (cases "i < w")
    case True
    then have "Suc i - w = 0" by simp
    then have "length (present (window w i (ret_col data))) \<le> i"
      using win present_ret_zero [of "ret_at data" i] by (simp del: upt_Suc)
    then show ?thesis using True i len by (simp add: rolling_nth del: upt_Suc)
  next
    case False
    then have k: "0 < Suc i - w" by simp
    have "present (window w i (ret_col data)) = map (ret_at data) [Suc i - w..<Suc i]"
      using win present_ret_from [OF k] by (simp del: upt_Suc)
    then show ?thesis using False i len by (simp add: rolling_nth del: upt_Suc)
  qed
qed

lemma sum_list_map_upt: "sum_list (map f [a..<Suc b]) = (\<Sum>j = a..b. f j)"
  by (simp add: interv_sum_list_conv_sum_set_nat atLeastLessThanSuc_atLeastAtMost del: upt_Suc)

lemma std_upt_explicit:
  fixes r :: "nat \<Rightarrow> real"
  assumes "2 \<le> v" and "v \<le> i"
  shows "std (map r [Suc i - v..<Suc i]) =
           Some (sqrt ((\<Sum>j = Suc i - v..i. (r j - (\<Sum>k = Suc i - v..i. r k) / real v)\<^sup>2)
                        / real (v - 1)))"
proof -
  have l: "length (map r [Suc i - v..<Suc i]) = v"
    using assms(2) by (simp del: upt_Suc)
  have m: "map (\<lambda>x. (x - c)\<^sup>2) (map r [Suc i - v..<Suc i]) =
             map (\<lambda>j. (r j - c)\<^sup>2) [Suc i - v..<Suc i]" for c
    by (simp del: upt_Suc)
  have "\<not> v \<le> 1" using assms(1) by simp
  then show ?thesis
    unfolding std_def Let_def l m sum_list_map_upt by (simp only: if_False)
qed

lemma volR_window_one:
  assumes "i < length data"
  shows "volR_col 1 data ! i = None"
proof -
  let ?obs = "present (window 1 i (ret_col data))"
  have len: "i < length (ret_col data)" using assms by (simp add: ret_col_def)
  have "length ?obs \<le> length (window 1 i (ret_col data))" by (rule length_present_le)
  also have "\<dots> = Suc i - (Suc i - 1)" using len by (rule length_window)
  finally have "length ?obs \<le> 1" by simp
  then have "rolling 1 std (ret_col data) ! i = None"
    using len by (simp add: rolling_nth std_def)
  then show ?thesis using len by (simp add: volR_col_def)
qed

text \<open>
  With a window of one row the rolling volatility is missing at every row, also at the
  rows \<open>i \<ge> 1\<close>: the sample standard deviation divides by the number of returns less
  one.
\<close>

theorem rolling_volatility_window_one_counterexample:
  "(0::nat) < 1 \<and> (1::nat) \<le> 1 \<and> 1 < length [bar_at 0 1, bar_at 1 2, bar_at 2 6] \<and>
   0 \<notin> clot ` set [bar_at 0 1, bar_at 1 2, bar_at 2 6] \<and>
   volR_col 1 [bar_at 0 1, bar_at 1 2, bar_at 2 6] ! 1 = None"
  using volR_window_one [of 1 "[bar_at 0 1, bar_at 1 2, bar_at 2 6]"] by simp

text \<open>
  Claim C8, as the code has it: for closes that are not zero and a window \<open>v > 0\<close>, the
  rolling volatility of row \<open>i\<close> is missing when \<open>i < v\<close>. For \<open>v \<ge> 2\<close> and \<open>i \<ge> v\<close> it is
  the sample standard deviation of the \<open>v\<close> returns of rows \<open>i-v+1 .. i\<close>, that is the
  square root of the sum of their squared deviations from their mean divided by
  \<open>v - 1\<close>, times the square root of 252; so it is present exactly at the rows \<open>i \<ge> v\<close>.
  For \<open>v = 1\<close> it is missing at every row.
\<close>

theorem rolling_volatility_from_window:
  assumes "0 < vol_w" and "\<forall>r \<in> set data. clot r \<noteq> 0" and "i < length data"
  shows "(i < vol_w \<longrightarrow> volR_col vol_w data ! i = None) \<and>
         (2 \<le> vol_w \<and> vol_w \<le> i \<longrightarrow>
            volR_col vol_w data ! i =
              Some (sqrt ((\<Sum>j = Suc i - vol_w..i.
                             (clot (data ! j) / clot (data ! (j - 1)) - 1 -
                              (\<Sum>k = Suc i - vol_w..i. clot (data ! k) / clot (data ! (k - 1)) - 1)
                                / real vol_w)\<^sup>2)
                          / real (vol_w - 1))
                    * sqrt 252)) \<and>
         (vol_w = 1 \<longrightarrow> volR_col vol_w data ! i = None)"
proof -
  have len: "i < length (rolling vol_w std (ret_col data))"
    using assms(3) by (simp add: rolling_def ret_col_def)
  have v: "volR_col vol_w data ! i =
             map_option (\<lambda>s. s * sqrt 252)
               (if i < vol_w then None else std (map (ret_at data) [Suc i - vol_w..<Suc i]))"
    using len by (simp add: volR_col_def rolling_std_ret_nth [OF assms(2,3)])
  have 1: "i < vol_w \<longrightarrow> volR_col vol_w data ! i = None" using v by simp
  have 2: "2 \<le> vol_w \<and> vol_w \<le> i \<longrightarrow>
            volR_col vol_w data ! i =
              Some (sqrt ((\<Sum>j = Suc i - vol_w..i.
                             (clot (data ! j) / clot (data ! (j - 1)) - 1 -
                              (\<Sum>k = Suc i - vol_w..i. clot (data ! k) / clot (data ! (k - 1)) - 1)
                                / real vol_w)\<^sup>2)
                          / real (vol_w - 1))
                    * sqrt 252)"
  proof
    assume a: "2 \<le> vol_w \<and> vol_w \<le> i"
    then have "\<not> i < vol_w" by simp
    with v have "volR_col vol_w data ! i =
        map_option (\<lambda>s. s * sqrt 252) (std (map (ret_at data) [Suc i - vol_w..<Suc i]))"
      by (simp only: if_False)
    also have "\<dots> = Some (sqrt ((\<Sum>j = Suc i - vol_w..i.
                             (ret_at data j -
                              (\<Sum>k = Suc i - vol_w..i. ret_at data k) / real vol_w)\<^sup>2)
                          / real (vol_w - 1)) * sqrt 252)"
      using a by (simp only: std_upt_explicit option.map)
    finally show "volR_col vol_w data ! i =
              Some (sqrt ((\<Sum>j = Suc i - vol_w..i.
                             (clot (data ! j) / clot (data ! (j - 1)) - 1 -
                              (\<Sum>k = Suc i - vol_w..i. clot (data ! k) / clot (data ! (k - 1)) - 1)
                                / real vol_w)\<^sup>2)
                          / real (vol_w - 1))
                    * sqrt 252)"
      unfolding ret_at_def .
  qed
  have 3: "vol_w = 1 \<longrightarrow> volR_col vol_w data ! i = None"
    using volR_window_one [OF assms(3)] by simp
  from 1 2 3 show ?thesis by blast
qed

text \<open>
  The derived columns read the close column and the three window sizes and nothing else:
  two frames with the same closes get the same derived columns, whatever their dates and
  their other cells.
\<close>

lemma derived_columns_depend_on_closes:
  assumes "map clot data1 = map clot data2"
  shows "ret_col data1 = ret_col data2"
    and "maF_col maF data1 = maF_col maF data2"
    and "maS_col maS data1 = maS_col maS data2"
    and "peak_col data1 = peak_col data2"
    and "dd_col data1 = dd_col data2"
    and "volR_col vol_w data1 = volR_col vol_w data2"
    and "reg_col maF maS data1 = reg_col maF maS data2"
proof -
  have "map (\<lambda>r. Some (clot r)) data1 = map Some (map clot data1)"
    and "map (\<lambda>r. Some (clot r)) data2 = map Some (map clot data2)"
    by simp_all
  with assms have s: "map (\<lambda>r. Some (clot r)) data1 = map (\<lambda>r. Some (clot r)) data2"
    by (simp only:)
  show "ret_col data1 = ret_col data2" and "peak_col data1 = peak_col data2"
    and "dd_col data1 = dd_col data2" and "volR_col vol_w data1 = volR_col vol_w data2"
    unfolding volR_col_def dd_col_def peak_col_def ret_col_def assms by (rule refl)+
  show "maF_col maF data1 = maF_col maF data2" and "maS_col maS data1 = maS_col maS data2"
    and "reg_col maF maS data1 = reg_col maF maS data2"
    unfolding reg_col_def maF_col_def maS_col_def s by (rule refl)+
qed

section \<open>Regime rectangles: the loop invariant\<close>

lemma upt_split: "s \<le> n \<Longrightarrow> [0..<s] @ [s..<n] = [0..<n]"
  using upt_add_eq_append [of 0 s "n - s"] by simp

lemma concat_rows_snoc:
  assumes "concat (map rows_of out) = [0..<s]" and "s \<le> k"
  shows "concat (map rows_of (out @ [(s, k)])) = [0..<Suc k]"
proof -
  have "concat (map rows_of (out @ [(s, k)])) = [0..<s] @ [s..<Suc k]"
    using assms(1) by (simp add: rows_of_def del: upt_Suc)
  also have "\<dots> = [0..<Suc k]"
    using assms(2) by (intro upt_split) simp
  finally show ?thesis .
qed

lemma set_rows_of: "j \<in> set (rows_of se) \<longleftrightarrow> fst se \<le> j \<and> j \<le> snd se"
  by (auto simp: rows_of_def simp del: upt_Suc)

lemma distinct_adj_snoc2:
  "distinct_adj (xs @ [a]) \<Longrightarrow> a \<noteq> b \<Longrightarrow> distinct_adj (xs @ [a, b])"
proof -
  assume d: "distinct_adj (xs @ [a])" and ne: "a \<noteq> b"
  have "distinct_adj ((xs @ [a]) @ [b])"
    unfolding distinct_adj_append_iff [of "xs @ [a]" "[b]"] using d ne by simp
  then show ?thesis by simp
qed

lemma seg_invI:
  assumes "s \<le> k"
    and "concat (map rows_of out) = [0..<s]"
    and "\<forall>j. s \<le> j \<and> j \<le> k \<longrightarrow> reg ! j = reg ! k"
    and "\<forall>se \<in> set out. fst se \<le> snd se \<and> snd se < s \<and>
             (\<forall>j. fst se \<le> j \<and> j \<le> snd se \<longrightarrow> reg ! j = reg ! snd se)"
    and "sorted_wrt (\<lambda>se se'. snd se < fst se') out"
    and "distinct_adj (map (\<lambda>se. reg ! snd se) out @ [reg ! k])"
  shows "seg_inv reg k (s, out)"
  unfolding seg_inv_def prod.case using assms by (intro conjI)

lemma seg_invD:
  assumes "seg_inv reg k (s, out)"
  shows "s \<le> k"
    and "concat (map rows_of out) = [0..<s]"
    and "\<forall>j. s \<le> j \<and> j \<le> k \<longrightarrow> reg ! j = reg ! k"
    and "\<forall>se \<in> set out. fst se \<le> snd se \<and> snd se < s \<and>
             (\<forall>j. fst se \<le> j \<and> j \<le> snd se \<longrightarrow> reg ! j = reg ! snd se)"
    and "sorted_wrt (\<lambda>se se'. snd se < fst se') out"
    and "distinct_adj (map (\<lambda>se. reg ! snd se) out @ [reg ! k])"
  using assms unfolding seg_inv_def prod.case by blast+

lemma seg_inv_start: "seg_inv reg 0 (0, [])"
  by (rule seg_invI) simp_all

lemma segs_snoc:
  assumes segs: "\<forall>se \<in> set out. fst se \<le> snd se \<and> snd se < s \<and>
             (\<forall>j. fst se \<le> j \<and> j \<le> snd se \<longrightarrow> reg ! j = reg ! snd se)"
    and sk: "s \<le> k"
    and run: "\<forall>j. s \<le> j \<and> j \<le> k \<longrightarrow> reg ! j = reg ! k"
  shows "\<forall>se \<in> set (out @ [(s, k)]). fst se \<le> snd se \<and> snd se < Suc k \<and>
             (\<forall>j. fst se \<le> j \<and> j \<le> snd se \<longrightarrow> reg ! j = reg ! snd se)"
proof
  fix se assume "se \<in> set (out @ [(s, k)])"
  then consider "se \<in> set out" | "se = (s, k)" by auto
  then show "fst se \<le> snd se \<and> snd se < Suc k \<and>
             (\<forall>j. fst se \<le> j \<and> j \<le> snd se \<longrightarrow> reg ! j = reg ! snd se)"
  proof cases
    case 1
    with segs have a: "fst se \<le> snd se" and b: "snd se < s"
      and c: "\<forall>j. fst se \<le> j \<and> j \<le> snd se \<longrightarrow> reg ! j = reg ! snd se" by blast+
    from b sk have "snd se < Suc k" by linarith
    with a c show ?thesis by blast
  next
    case 2
    then have f: "fst se = s" and e: "snd se = k" by simp_all
    have "k < Suc k" by (rule lessI)
    with sk run show ?thesis unfolding f e by blast
  qed
qed

lemma ord_snoc:
  assumes "sorted_wrt (\<lambda>se se'. snd se < fst se') out"
    and "\<forall>se \<in> set out. snd se < s"
  shows "sorted_wrt (\<lambda>se se'. snd se < fst se') (out @ [(s, k)])"
  using assms by (simp add: sorted_wrt_append)

lemma seg_inv_step:
  assumes "seg_inv reg k st"
  shows "seg_inv reg (Suc k) (seg_step reg (Suc k) st)"
proof -
  obtain s out where st: "st = (s, out)" by (cases st)
  note inv = seg_invD [OF assms [unfolded st]]
  show ?thesis
  proof (cases "reg ! Suc k = reg ! k")
    case False
    have step: "seg_step reg (Suc k) st = (Suc k, out @ [(s, k)])"
      unfolding st seg_step_def prod.case using False by simp
    have r: "\<forall>j. Suc k \<le> j \<and> j \<le> Suc k \<longrightarrow> reg ! j = reg ! Suc k"
      using le_antisym by blast
    have d: "distinct_adj (map (\<lambda>se. reg ! snd se) (out @ [(s, k)]) @ [reg ! Suc k])"
      using distinct_adj_snoc2 [OF inv(6), of "reg ! Suc k"] False by simp
    have b: "\<forall>se \<in> set out. snd se < s" using inv(4) by blast
    show ?thesis
      unfolding step
      by (rule seg_invI [OF le_refl concat_rows_snoc [OF inv(2) inv(1)] r
            segs_snoc [OF inv(4) inv(1) inv(3)] ord_snoc [OF inv(5) b] d])
  next
    case True
    have step: "seg_step reg (Suc k) st = (s, out)"
      unfolding st seg_step_def prod.case using True by simp
    have r: "\<forall>j. s \<le> j \<and> j \<le> Suc k \<longrightarrow> reg ! j = reg ! Suc k"
    proof (intro allI impI)
      fix j assume j: "s \<le> j \<and> j \<le> Suc k"
      show "reg ! j = reg ! Suc k"
      proof (cases "j = Suc k")
        case True
        then show ?thesis by (rule arg_cong)
      next
        case False
        with j have "s \<le> j \<and> j \<le> k" by linarith
        with inv(3) have "reg ! j = reg ! k" by blast
        also have "\<dots> = reg ! Suc k" by (rule True [symmetric])
        finally show ?thesis .
      qed
    qed
    have d: "distinct_adj (map (\<lambda>se. reg ! snd se) out @ [reg ! Suc k])"
      unfolding True by (rule inv(6))
    show ?thesis
      unfolding step
      by (rule seg_invI [OF le_SucI [OF inv(1)] inv(2) r inv(4) inv(5) d])
  qed
qed

lemma seg_inv_fold: "seg_inv reg k (fold (seg_step reg) [1..<Suc k] (0, []))"
proof (induction k)
  case 0
  show ?case by (simp add: seg_inv_start)
next
  case (Suc k)
  have "[1..<Suc (Suc k)] = [1..<Suc k] @ [Suc k]" by (rule upt_Suc_append) simp
  then have "fold (seg_step reg) [1..<Suc (Suc k)] (0, []) =
        seg_step reg (Suc k) (fold (seg_step reg) [1..<Suc k] (0, []))"
    by (simp del: upt_Suc)
  then show ?case using seg_inv_step [OF Suc.IH] by (simp only:)
qed

lemma segments_inv:
  assumes "reg \<noteq> []"
  shows "\<exists>s out. segments reg = Inr (out @ [(s, length reg - 1)]) \<and>
           seg_inv reg (length reg - 1) (s, out)"
proof -
  obtain s out where f: "fold (seg_step reg) [1..<length reg] (0, []) = (s, out)"
    by (cases "fold (seg_step reg) [1..<length reg] (0, [])")
  have n: "Suc (length reg - 1) = length reg" using assms by simp
  have "seg_inv reg (length reg - 1) (s, out)"
    using seg_inv_fold [of reg "length reg - 1"] unfolding n f .
  moreover have "segments reg = Inr (out @ [(s, length reg - 1)])"
    unfolding segments_def f prod.case using assms by simp
  ultimately show ?thesis by blast
qed

section \<open>Regime rectangles: the partition\<close>

lemma date_nth_mono:
  assumes "sorted (map date data)" and "i \<le> j" and "j < length data"
  shows "date (data ! i) \<le> date (data ! j)"
proof -
  have "map date data ! i \<le> map date data ! j"
    using assms by (intro sorted_nth_mono) simp_all
  then show ?thesis using assms by simp
qed

lemma seg_end_bound:
  assumes cov: "concat (map rows_of segs) = [0..<n]"
    and ne: "\<forall>se \<in> set segs. fst se \<le> snd se"
    and m: "se \<in> set segs"
  shows "snd se < n"
proof -
  from ne m have "snd se \<in> set (rows_of se)" by (simp only: set_rows_of) simp
  with m have "snd se \<in> set (concat (map rows_of segs))" by auto
  then show ?thesis unfolding cov by simp
qed

lemma vrect_dates:
  assumes cov: "concat (map rows_of segs) = [0..<length data]"
    and ne: "\<forall>se \<in> set segs. fst se \<le> snd se"
    and ord: "sorted_wrt (\<lambda>se se'. snd se < fst se') segs"
    and srt: "sorted (map date data)"
  shows "sorted_wrt (\<lambda>v v'. x1 v \<le> x0 v') (map (vrect_of data reg) segs) \<and>
         (\<forall>se \<in> set segs. x0 (vrect_of data reg se) \<le> x1 (vrect_of data reg se))"
proof
  have "sorted_wrt (\<lambda>se se'. date (data ! snd se) \<le> date (data ! fst se')) segs"
  proof (rule sorted_wrt_mono_rel [OF _ ord])
    fix se se' assume "se \<in> set segs" and m: "se' \<in> set segs" and lt: "snd se < fst se'"
    from ne m have "fst se' \<le> snd se'" by blast
    moreover have "snd se' < length data" by (rule seg_end_bound [OF cov ne m])
    ultimately have "snd se \<le> fst se'" and "fst se' < length data" using lt by linarith+
    then show "date (data ! snd se) \<le> date (data ! fst se')"
      by (rule date_nth_mono [OF srt])
  qed
  then show "sorted_wrt (\<lambda>v v'. x1 v \<le> x0 v') (map (vrect_of data reg) segs)"
    by (simp add: sorted_wrt_map vrect_of_def)
next
  show "\<forall>se \<in> set segs. x0 (vrect_of data reg se) \<le> x1 (vrect_of data reg se)"
  proof
    fix se assume m: "se \<in> set segs"
    from ne m have "fst se \<le> snd se" by blast
    moreover have "snd se < length data" by (rule seg_end_bound [OF cov ne m])
    ultimately have "date (data ! fst se) \<le> date (data ! snd se)"
      by (rule date_nth_mono [OF srt])
    then show "x0 (vrect_of data reg se) \<le> x1 (vrect_of data reg se)"
      by (simp add: vrect_of_def)
  qed
qed

lemma segments_facts:
  assumes "reg \<noteq> []"
  shows "\<exists>segs. segments reg = Inr segs \<and>
           concat (map rows_of segs) = [0..<length reg] \<and>
           (\<forall>se \<in> set segs. fst se \<le> snd se) \<and>
           (\<forall>se \<in> set segs. \<forall>j \<in> set (rows_of se). reg ! j = reg ! snd se) \<and>
           sorted_wrt (\<lambda>se se'. snd se < fst se') segs \<and>
           distinct_adj (map (\<lambda>se. reg ! snd se) segs) \<and>
           (length reg = 1 \<longrightarrow> length segs = 1)"
proof -
  let ?k = "length reg - 1"
  from segments_inv [OF assms] obtain s out
    where seg: "segments reg = Inr (out @ [(s, ?k)])" and i: "seg_inv reg ?k (s, out)"
    by blast
  note inv = seg_invD [OF i]
  have n: "Suc ?k = length reg" using assms by simp
  have c: "concat (map rows_of (out @ [(s, ?k)])) = [0..<length reg]"
    using concat_rows_snoc [OF inv(2) inv(1)] unfolding n .
  note all = segs_snoc [OF inv(4) inv(1) inv(3)]
  have g1: "\<forall>se \<in> set (out @ [(s, ?k)]). fst se \<le> snd se"
    using all by blast
  have g2: "\<forall>se \<in> set (out @ [(s, ?k)]). \<forall>j \<in> set (rows_of se). reg ! j = reg ! snd se"
  proof (intro ballI)
    fix se j assume "se \<in> set (out @ [(s, ?k)])" and "j \<in> set (rows_of se)"
    with all have "\<forall>j. fst se \<le> j \<and> j \<le> snd se \<longrightarrow> reg ! j = reg ! snd se"
      and "fst se \<le> j \<and> j \<le> snd se" by (blast, simp only: set_rows_of)
    then show "reg ! j = reg ! snd se" by blast
  qed
  have b: "\<forall>se \<in> set out. snd se < s" using inv(4) by blast
  have o: "sorted_wrt (\<lambda>se se'. snd se < fst se') (out @ [(s, ?k)])"
    by (rule ord_snoc [OF inv(5) b])
  have d: "distinct_adj (map (\<lambda>se. reg ! snd se) (out @ [(s, ?k)]))"
    using inv(6) by simp
  have one: "length reg = 1 \<longrightarrow> length (out @ [(s, ?k)]) = 1"
  proof
    assume l: "length reg = 1"
    then have "segments reg = Inr [(0, 0)]" using assms by (simp add: segments_def)
    with seg have "out @ [(s, ?k)] = [(0, 0)]" by simp
    then show "length (out @ [(s, ?k)]) = 1" by (simp only: list.size)
  qed
  from seg c g1 g2 o d one show ?thesis by blast
qed

text \<open>
  Claim C5: for a non-empty regime column the loop returns rectangles whose row ranges,
  laid end to end in the order of emission, are exactly the rows \<open>0 .. n-1\<close>: every row
  lies in one rectangle and in one only, each rectangle starts where the one before
  ended, and none is empty. Every row of a rectangle has the regime the rectangle is
  coloured by, and consecutive rectangles have different regimes. A column of one row
  gives one rectangle. With the rows in ascending date order (as the loader leaves them)
  every rectangle starts no later than it ends and ends no later than the next starts.
\<close>

theorem segments_partition:
  assumes "reg \<noteq> []"
  shows "\<exists>segs. segments reg = Inr segs \<and>
           concat (map rows_of segs) = [0..<length reg] \<and>
           (\<forall>se \<in> set segs. fst se \<le> snd se) \<and>
           (\<forall>se \<in> set segs. \<forall>j \<in> set (rows_of se). reg ! j = reg ! snd se) \<and>
           sorted_wrt (\<lambda>se se'. snd se < fst se') segs \<and>
           distinct_adj (map (\<lambda>se. reg ! snd se) segs) \<and>
           (length reg = 1 \<longrightarrow> length segs = 1) \<and>
           (\<forall>data. length data = length reg \<and> sorted (map date data) \<longrightarrow>
              sorted_wrt (\<lambda>v v'. x1 v \<le> x0 v') (map (vrect_of data reg) segs) \<and>
              (\<forall>se \<in> set segs. x0 (vrect_of data reg se) \<le> x1 (vrect_of data reg se)))"
proof -
  from segments_facts [OF assms] obtain segs where
    f: "segments reg = Inr segs"
       "concat (map rows_of segs) = [0..<length reg]"
       "\<forall>se \<in> set segs. fst se \<le> snd se"
       "\<forall>se \<in> set segs. \<forall>j \<in> set (rows_of se). reg ! j = reg ! snd se"
       "sorted_wrt (\<lambda>se se'. snd se < fst se') segs"
       "distinct_adj (map (\<lambda>se. reg ! snd se) segs)"
       "length reg = 1 \<longrightarrow> length segs = 1"
    by blast
  have "\<forall>data. length data = length reg \<and> sorted (map date data) \<longrightarrow>
              sorted_wrt (\<lambda>v v'. x1 v \<le> x0 v') (map (vrect_of data reg) segs) \<and>
              (\<forall>se \<in> set segs. x0 (vrect_of data reg se) \<le> x1 (vrect_of data reg se))"
  proof (intro allI impI)
    fix data :: "bar list"
    assume a: "length data = length reg \<and> sorted (map date data)"
    then have cov: "concat (map rows_of segs) = [0..<length data]" using f(2) by simp
    from a have srt: "sorted (map date data)" by blast
    show "sorted_wrt (\<lambda>v v'. x1 v \<le> x0 v') (map (vrect_of data reg) segs) \<and>
              (\<forall>se \<in> set segs. x0 (vrect_of data reg se) \<le> x1 (vrect_of data reg se))"
      by (rule vrect_dates [OF cov f(3) f(5) srt])
  qed
  with f show ?thesis by blast
qed

section \<open>Summary scalars over columns with missing cells\<close>

lemma fold_max_Max: "fold max vs (v::real) = Max (set (v # vs))"
  by (rule Max.set_eq_fold [symmetric])

lemma series_max_eq:
  "series_max xs = (if present xs = [] then None else Some (Max (set (present xs))))"
proof (cases "present xs")
  case Nil
  then show ?thesis by (simp add: series_max_def)
next
  case (Cons v vs)
  then show ?thesis by (simp only: series_max_def list.case fold_max_Max) simp
qed

lemma mean_present_eq:
  "series_mean xs =
     (if present xs = [] then None
      else Some (sum_list (present xs) / real (length (present xs))))"
  by (simp add: series_mean_def mean_def)

lemma present_Nil_map: "present (map f data) = [] \<longleftrightarrow> (\<forall>r \<in> set data. f r = None)"
  by (simp add: present_Nil_iff)

text \<open>
  Claim C10: the highest high and the mean volume of lines 128-129 are taken over the
  non-missing cells of their columns only. Each is missing exactly when its whole column
  is missing; otherwise the first is the greatest high that is present and the second
  the sum of the volumes that are present divided by their number.
\<close>

theorem kpis_skip_missing:
  assumes "summary data = Inr k"
  shows "max_high k =
           (if \<forall>r \<in> set data. haut r = None then None
            else Some (Max {h. \<exists>r \<in> set data. haut r = Some h})) \<and>
         avg_vol k =
           (if \<forall>r \<in> set data. vol r = None then None
            else Some (sum_list (present (map vol data)) / real (length (present (map vol data)))))"
proof -
  from assms have k: "max_high k = series_max (map haut data)"
    "avg_vol k = series_mean (map vol data)"
    by (auto simp: summary_def split: if_splits)
  have s: "set (present (map haut data)) = {h. \<exists>r \<in> set data. haut r = Some h}"
    by (force simp: set_present)
  show ?thesis
    unfolding k series_max_eq mean_present_eq present_Nil_map s by simp
qed

theorem kpis_skip_missing_witness:
  "\<exists>k. summary [bar_at 0 1 \<lparr>haut := Some 3\<rparr>, bar_at 1 2 \<lparr>vol := Some 10\<rparr>,
                  bar_at 2 3 \<lparr>haut := Some 5, vol := Some 20\<rparr>] = Inr k \<and>
       max_high k = Some 5 \<and> avg_vol k = Some 15"
proof -
  let ?d = "[bar_at 0 1 \<lparr>haut := Some 3\<rparr>, bar_at 1 2 \<lparr>vol := Some 10\<rparr>,
             bar_at 2 3 \<lparr>haut := Some 5, vol := Some 20\<rparr>]"
  obtain k where k: "summary ?d = Inr k" using summary_nonempty [of ?d] by blast
  have h: "{h. \<exists>r \<in> set ?d. haut r = Some h} = {3, 5}"
    by (auto simp: bar_at_def)
  have "max_high k = Some 5 \<and> avg_vol k = Some 15"
    using kpis_skip_missing [OF k] unfolding h by (simp add: bar_at_def)
  with k show ?thesis by blast
qed

section \<open>Concrete instances\<close>

theorem regime_iff_short_above_long_witness:
  "(0::nat) < 1 \<and> (0::nat) < 2 \<and> 2 < length [bar_at 0 1, bar_at 1 2, bar_at 2 4] \<and>
   maF_col 1 [bar_at 0 1, bar_at 1 2, bar_at 2 4] ! 2 = Some 4 \<and>
   maS_col 2 [bar_at 0 1, bar_at 1 2, bar_at 2 4] ! 2 = Some 3 \<and>
   reg_col 1 2 [bar_at 0 1, bar_at 1 2, bar_at 2 4] ! 2 = 1 \<and>
   maS_col 2 [bar_at 0 1, bar_at 1 2, bar_at 2 4] ! 0 = None \<and>
   reg_col 1 2 [bar_at 0 1, bar_at 1 2, bar_at 2 4] ! 0 = 0"
proof -
  let ?d = "[bar_at 0 1, bar_at 1 2, bar_at 2 4]"
  have F: "maF_col 1 ?d ! 2 = Some 4"
    by (simp add: maF_col_def rolling_def window_def mean_def)
  have S: "maS_col 2 ?d ! 2 = Some 3"
    by (simp add: maS_col_def rolling_def window_def mean_def)
  have r2: "reg_col 1 2 ?d ! 2 = 1"
    using regime_iff_short_above_long [of 1 2 2 ?d] F S by simp
  have r0: "maS_col 2 ?d ! 0 = None \<and> reg_col 1 2 ?d ! 0 = 0"
    using regime_iff_short_above_long [of 1 2 0 ?d] by simp
  from F S r2 r0 show ?thesis by simp
qed

theorem rolling_volatility_from_window_witness:
  "(0::nat) < 2 \<and> 0 \<notin> clot ` set [bar_at 0 1, bar_at 1 2, bar_at 2 6] \<and>
   2 < length [bar_at 0 1, bar_at 1 2, bar_at 2 6] \<and>
   volR_col 2 [bar_at 0 1, bar_at 1 2, bar_at 2 6] ! 1 = None \<and>
   volR_col 2 [bar_at 0 1, bar_at 1 2, bar_at 2 6] ! 2 = Some (sqrt (1 / 2) * sqrt 252)"
proof -
  let ?d = "[bar_at 0 1, bar_at 1 2, bar_at 2 6]"
  have nz: "\<forall>r \<in> set ?d. clot r \<noteq> 0" by simp
  have w: "{Suc 2 - 2..2} = {1, 2::nat}" by auto
  have v1: "volR_col 2 ?d ! 1 = None"
    using rolling_volatility_from_window [OF _ nz, of 2 1] by simp
  have v2: "volR_col 2 ?d ! 2 = Some (sqrt (1 / 2) * sqrt 252)"
    using rolling_volatility_from_window [OF _ nz, of 2 2] unfolding w
    by (simp add: power2_eq_square)
  from v1 v2 show ?thesis by simp
qed

theorem segments_partition_witness:
  "[0, 1, 1 :: int] \<noteq> [] \<and>
   segments [0, 1, 1] = Inr [(0, 0), (1, 2)] \<and>
   concat (map rows_of [(0, 0), (1, 2)]) = [0..<length [0, 1, 1 :: int]] \<and>
   distinct_adj (map (\<lambda>se. [0, 1, 1 :: int] ! snd se) [(0, 0), (1, 2)])"
proof -
  have e: "segments [0, 1, 1] = Inr [(0, 0), (1, 2)]"
    by (simp add: segments_def seg_step_def upt_rec)
  from segments_partition [of "[0, 1, 1]"] obtain segs where
    "segments [0, 1, 1] = Inr segs"
    and c: "concat (map rows_of segs) = [0..<length [0, 1, 1 :: int]]"
    and d: "distinct_adj (map (\<lambda>se. [0, 1, 1 :: int] ! snd se) segs)"
    by blast
  with e have "segs = [(0, 0), (1, 2)]" by simp
  with e c d show ?thesis by simp
qed

end
